theory Spec2Isabelle
  imports Main "HOL-Library.Word"
begin

unbundle bit_operations_syntax

section \<open>Data model\<close>

text \<open>
  The program is a single C++ file: the struct \<open>Block\<close>, the checksum \<open>simpleHash\<close>,
  the function \<open>createBlock\<close> and \<open>main\<close>, which owns a fixed array of \<open>MAX_BLOCKS\<close>
  blocks, a counter and the console dialogue.
\<close>

definition MAX_BLOCKS :: nat where
  "MAX_BLOCKS = 10"

text \<open>
  Whether plain \<open>char\<close> is a signed or an unsigned 8-bit type is left to the C++
  implementation; the conversion \<open>(int)input[i]\<close> sign-extends in the first case and
  zero-extends in the second. Every function that depends on it takes the choice as its
  first argument, so each result below covers both kinds of platform.
\<close>

datatype char_sign = SignedChar | UnsignedChar

text \<open>The numeric value of a \<open>char\<close> that holds the byte \<open>c\<close>.\<close>

definition char_value :: "char_sign \<Rightarrow> char \<Rightarrow> int" where
  "char_value cs c =
     (case cs of
        SignedChar \<Rightarrow> signed_take_bit 7 (of_char c)
      | UnsignedChar \<Rightarrow> of_char c)"

text \<open>\<open>(int)c\<close> for a \<open>char c\<close>: the 32-bit \<open>int\<close> of the same value.\<close>

definition char_to_int :: "char_sign \<Rightarrow> char \<Rightarrow> 32 word" where
  "char_to_int cs c = word_of_int (char_value cs c)"

text \<open>The narrowing of an \<open>int\<close> to \<open>char\<close> in \<open>hashArray[i] = ...\<close>: the low byte.\<close>

definition int_to_char :: "32 word \<Rightarrow> char" where
  "int_to_char v = char_of (sint v)"

section \<open>simpleHash\<close>

text \<open>
  Step 1, \<open>for (int i = 0; i < input.length(); i++) hash += (int)input[i] * (i + 1);\<close>.
  The accumulator \<open>hash\<close> and the counter \<open>i\<close> are 32-bit \<open>int\<close>s, here \<open>32 word\<close>s whose
  \<open>+\<close> and \<open>*\<close> wrap around: the silent wrap-around the specification prescribes (C++
  itself leaves signed overflow undefined). \<open>input.length()\<close> is a \<open>size_t\<close>, an unsigned
  64-bit integer. For the comparison \<open>i < input.length()\<close> and for the index in
  \<open>input[i]\<close> the \<open>int\<close> is converted to \<open>size_t\<close>, which sign-extends it: a counter that
  has wrapped to a negative value becomes a number of at least \<open>2 ^ 64 - 2 ^ 31\<close> and ends
  the loop.
\<close>

definition int_to_size_t :: "32 word \<Rightarrow> 64 word" where
  "int_to_size_t i = scast i"

definition string_length :: "string \<Rightarrow> 64 word" where
  "string_length input = word_of_nat (length input)"

function sum_loop :: "char_sign \<Rightarrow> string \<Rightarrow> 32 word \<Rightarrow> 32 word \<Rightarrow> 32 word" where
  "sum_loop cs input i hash =
     (if int_to_size_t i < string_length input
      then sum_loop cs input (i + 1)
             (hash + char_to_int cs (input ! unat (int_to_size_t i)) * (i + 1))
      else hash)"
  by pat_completeness auto
termination
proof (relation "measure (\<lambda>(cs, input, i, hash). unat (- 1 - i))")
  show "wf (measure (\<lambda>(cs, input, i, hash). unat (- 1 - i)))"
    by simp
next
  fix cs :: char_sign and input :: string and i hash :: "32 word"
  assume "int_to_size_t i < string_length input"
  then have "i \<noteq> - 1"
    by (auto simp: int_to_size_t_def)
  then have nz: "- 1 - i \<noteq> 0"
    by simp
  have "unat (- 1 - i - 1) = unat (- 1 - i) - 1"
    by (rule unat_minus_one [OF nz])
  moreover have "0 < unat (- 1 - i)"
    using nz by (simp add: unat_gt_0)
  ultimately have "unat (- 1 - i - 1) < unat (- 1 - i)"
    by arith
  moreover have "- 1 - (i + 1) = - 1 - i - 1"
    by simp
  ultimately have "unat (- 1 - (i + 1)) < unat (- 1 - i)"
    by (simp only:)
  then show "((cs, input, i + 1,
               hash + char_to_int cs (input ! unat (int_to_size_t i)) * (i + 1)),
              (cs, input, i, hash))
      \<in> measure (\<lambda>(cs, input, i, hash). unat (- 1 - i))"
    by simp
qed

declare sum_loop.simps [simp del]

text \<open>
  Step 2, the loop over the eight nibbles. \<open>hash >> (i * 4)\<close> on a signed \<open>int\<close> is the
  arithmetic shift, \<open>value < 10\<close> compares signed \<open>int\<close>s, and \<open>'0'\<close> and \<open>'A'\<close> are the
  \<open>int\<close>s 48 and 65 in the additions.
\<close>

definition hex_char :: "32 word \<Rightarrow> nat \<Rightarrow> char" where
  "hex_char hash i =
     (let v = signed_drop_bit (i * 4) hash AND 0xF
      in if sint v < 10 then int_to_char (0x30 + v) else int_to_char (0x41 + (v - 10)))"

function hex_loop :: "32 word \<Rightarrow> nat \<Rightarrow> char list \<Rightarrow> char list" where
  "hex_loop hash i hashArray =
     (if i < 8 then hex_loop hash (i + 1) (hashArray[i := hex_char hash i]) else hashArray)"
  by pat_completeness auto
termination
  by (relation "measure (\<lambda>(hash, i, hashArray). 8 - i)") auto

declare hex_loop.simps [simp del]

text \<open>
  \<open>string(hashArray)\<close> builds the result from a C string: the characters before the
  first NUL.
\<close>

definition c_str :: "char list \<Rightarrow> string" where
  "c_str a = takeWhile (\<lambda>c. c \<noteq> CHR 0x00) a"

text \<open>
  \<open>char hashArray[9]\<close> is not initialised by the source; the model starts it with nine
  NUL characters. All nine cells are written before the array is read (lemma
  \<open>hex_loop_fills\<close> holds for every initial content).
\<close>

definition simpleHash :: "char_sign \<Rightarrow> string \<Rightarrow> string" where
  "simpleHash cs input =
     (let hash = sum_loop cs input 0 0;
          hashArray = hex_loop hash 0 (replicate 9 (CHR 0x00));
          hashArray = hashArray[8 := CHR 0x00]
      in c_str hashArray)"

section \<open>Block and createBlock\<close>

text \<open>
  The struct \<open>Block\<close> with its three string members. (It is declared here, after
  \<open>simpleHash\<close>, because its member \<open>hash\<close> has the name of that function's local
  variable; for the same reason the parameters \<open>data\<close> and \<open>prevHash\<close> of \<open>createBlock\<close>
  are written \<open>d\<close> and \<open>p\<close>.)
\<close>

record Block =
  data :: string
  prevHash :: string
  hash :: string

definition createBlock :: "char_sign \<Rightarrow> string \<Rightarrow> string \<Rightarrow> Block" where
  "createBlock cs d p = \<lparr>data = d, prevHash = p, hash = simpleHash cs (d @ p)\<rparr>"

section \<open>Console streams\<close>

text \<open>
  Standard input is the sequence of characters not yet read, with the two state flags
  the program can set. An input operation on a stream that is not good sets
  \<open>failbit\<close> and reads nothing.
\<close>

record istream =
  buf :: string
  eofbit :: bool
  failbit :: bool

definition good :: "istream \<Rightarrow> bool" where
  "good s = (\<not> eofbit s \<and> \<not> failbit s)"

definition isspace :: "char \<Rightarrow> bool" where
  "isspace c = (c \<in> set [CHR '' '', CHR 0x09, CHR 0x0A, CHR 0x0B, CHR 0x0C, CHR 0x0D])"

text \<open>
  \<open>getline(cin, str)\<close>: the characters up to the next newline, which is consumed and
  not stored. At the end of input the characters read so far are the line, and reading
  nothing at all sets \<open>failbit\<close>. When the stream is not good \<open>str\<close> keeps its value.
\<close>

definition getline :: "istream \<Rightarrow> string \<Rightarrow> istream \<times> string" where
  "getline s str =
     (if \<not> good s then (s\<lparr>failbit := True\<rparr>, str)
      else
        let line = takeWhile (\<lambda>c. c \<noteq> CHR 0x0A) (buf s)
        in case dropWhile (\<lambda>c. c \<noteq> CHR 0x0A) (buf s) of
             [] \<Rightarrow> (s\<lparr>buf := [], eofbit := True, failbit := (line = [])\<rparr>, line)
           | nl # rest \<Rightarrow> (s\<lparr>buf := rest\<rparr>, line))"

text \<open>
  \<open>cin >> c\<close> for a \<open>char c\<close>: skips white space and reads one character; when there is
  none, \<open>c\<close> keeps its value.
\<close>

definition get_char :: "istream \<Rightarrow> char \<Rightarrow> istream \<times> char" where
  "get_char s c =
     (if \<not> good s then (s\<lparr>failbit := True\<rparr>, c)
      else
        case dropWhile isspace (buf s) of
          [] \<Rightarrow> (s\<lparr>buf := [], eofbit := True, failbit := True\<rparr>, c)
        | x # rest \<Rightarrow> (s\<lparr>buf := rest\<rparr>, x))"

text \<open>\<open>cin.ignore()\<close>: discards one character.\<close>

definition ignore :: "istream \<Rightarrow> istream" where
  "ignore s =
     (if \<not> good s then s\<lparr>failbit := True\<rparr>
      else
        case buf s of
          [] \<Rightarrow> s\<lparr>eofbit := True\<rparr>
        | x # rest \<Rightarrow> s\<lparr>buf := rest\<rparr>)"

text \<open>\<open>cout << n\<close> for a non-negative \<open>int\<close>: its decimal digits.\<close>

fun show_int :: "nat \<Rightarrow> string" where
  "show_int n =
     (if n < 10 then [char_of (48 + n)]
      else show_int (n div 10) @ [char_of (48 + n mod 10)])"

declare show_int.simps [simp del]

section \<open>main\<close>

text \<open>
  The variables of \<open>main\<close> and the two console streams. \<open>blockchain\<close> is the array of
  \<open>MAX_BLOCKS\<close> default-constructed blocks; \<open>blockCount\<close> is an \<open>int\<close> that starts at 1
  and only grows, up to \<open>MAX_BLOCKS\<close>.
\<close>

record main_state =
  blockchain :: "Block list"
  blockCount :: nat
  choice :: char
  cin :: istream
  cout :: string

definition main_init :: "char_sign \<Rightarrow> string \<Rightarrow> main_state" where
  "main_init cs inp =
     \<lparr>blockchain =
        (replicate MAX_BLOCKS \<lparr>data = [], prevHash = [], hash = []\<rparr>)
          [0 := createBlock cs ''Genesis Block'' ''00000000''],
      blockCount = 1,
      choice = CHR ''y'',
      cin = \<lparr>buf = inp, eofbit = False, failbit = False\<rparr>,
      cout = []\<rparr>"

text \<open>
  The first half of the loop body: the data prompt, \<open>getline\<close> into a fresh \<open>string data\<close>,
  and the new block stored at index \<open>blockCount\<close> with the hash of the block at
  \<open>blockCount - 1\<close> as its \<open>prevHash\<close>. Under the loop guard both indices are within the
  array (lemma \<open>chain_inv_step\<close>).
\<close>

definition add_block :: "char_sign \<Rightarrow> main_state \<Rightarrow> main_state" where
  "add_block cs s =
     (let out = cout s @ [CHR 0x0A] @ ''Enter data for block '' @ show_int (blockCount s) @ '': '';
          (i, d) = getline (cin s) []
      in s\<lparr>cout := out,
           cin := i,
           blockchain :=
             (blockchain s)[blockCount s :=
                createBlock cs d (hash (blockchain s ! (blockCount s - 1)))],
           blockCount := blockCount s + 1\<rparr>)"

text \<open>The second half: the continuation prompt, \<open>cin >> choice\<close> and \<open>cin.ignore()\<close>.\<close>

definition ask_continue :: "main_state \<Rightarrow> main_state" where
  "ask_continue s =
     (let out = cout s @ ''Add another block? (y/n): '';
          (i, c) = get_char (cin s) (choice s)
      in s\<lparr>cout := out, choice := c, cin := ignore i\<rparr>)"

function main_loop :: "char_sign \<Rightarrow> main_state \<Rightarrow> main_state" where
  "main_loop cs s =
     (if choice s = CHR ''y'' \<and> blockCount s < MAX_BLOCKS
      then main_loop cs (ask_continue (add_block cs s))
      else s)"
  by pat_completeness auto
termination
  by (relation "measure (\<lambda>(cs, s). MAX_BLOCKS - blockCount s)")
     (auto simp: add_block_def ask_continue_def Let_def split: prod.splits)

declare main_loop.simps [simp del]

text \<open>The report printed after the loop.\<close>

definition display_block :: "main_state \<Rightarrow> nat \<Rightarrow> string" where
  "display_block s i =
     ''Block '' @ show_int i @ '':'' @ [CHR 0x0A] @
     ''  Data      : '' @ data (blockchain s ! i) @ [CHR 0x0A] @
     ''  Prev Hash : '' @ prevHash (blockchain s ! i) @ [CHR 0x0A] @
     ''  Hash      : '' @ hash (blockchain s ! i) @ [CHR 0x0A, CHR 0x0A]"

definition display :: "main_state \<Rightarrow> main_state" where
  "display s =
     s\<lparr>cout := cout s @ [CHR 0x0A] @ ''=== Blockchain ==='' @ [CHR 0x0A] @
                concat (map (display_block s) [0..<blockCount s])\<rparr>"

text \<open>The whole program on a given standard input: the exit code and the final state.\<close>

definition main :: "char_sign \<Rightarrow> string \<Rightarrow> int \<times> main_state" where
  "main cs inp = (0, display (main_loop cs (main_init cs inp)))"

text \<open>The chain a state holds: the first \<open>blockCount\<close> cells of the array.\<close>

definition chain :: "main_state \<Rightarrow> Block list" where
  "chain s = take (blockCount s) (blockchain s)"

text \<open>
  The interactive loop of a run on standard input \<open>inp\<close>: \<open>main\<close> up to the end of its
  \<open>while\<close> loop.
\<close>

definition interactive_loop :: "char_sign \<Rightarrow> string \<Rightarrow> main_state" where
  "interactive_loop cs inp = main_loop cs (main_init cs inp)"

text \<open>The state after \<open>k\<close> passes through the loop body, the loop guard left aside.\<close>

definition iterations :: "char_sign \<Rightarrow> nat \<Rightarrow> main_state \<Rightarrow> main_state" where
  "iterations cs k s = ((\<lambda>t. ask_continue (add_block cs t)) ^^ k) s"

text \<open>
  The loop invariant: the counter stays within the array, and every block after the
  first carries the hash of the block before it.
\<close>

definition chain_inv :: "main_state \<Rightarrow> bool" where
  "chain_inv s \<longleftrightarrow>
     1 \<le> blockCount s \<and> blockCount s \<le> MAX_BLOCKS \<and> length (blockchain s) = MAX_BLOCKS \<and>
     (\<forall>i. 1 \<le> i \<and> i < blockCount s \<longrightarrow>
        prevHash (blockchain s ! i) = hash (blockchain s ! (i - 1)))"

section \<open>The Hasher as the specification describes it\<close>

text \<open>
  This section follows the specification's words, not the source, so that the two can be
  compared. The input is a sequence of character codes, the byte values of its
  characters. The accumulator is the sum over the 1-indexed positions \<open>i\<close> of the code of
  the \<open>i\<close>-th character times \<open>i\<close>, computed over the integers and wrapped to the 32-bit
  signed range. The digest has the eight characters that encode the nibbles
  \<open>(accumulator >> (i * 4)) & 0xF\<close> for \<open>i\<close> from 0 to 7, the values 0 to 9 as \<open>'0'\<close> to
  \<open>'9'\<close> and 10 to 15 as \<open>'A'\<close> to \<open>'F'\<close>. The accumulator and the digest take the code
  of a character as a parameter; the specification's Hasher is \<open>Hasher char_code\<close>.
\<close>

definition char_code :: "char \<Rightarrow> int" where
  "char_code c = of_char c"

text \<open>
  The code that a platform with a signed \<open>char\<close> gives to a byte: the byte value below
  \<open>0x80\<close>, the byte value minus 256 from \<open>0x80\<close> on.
\<close>

definition signed_char_code :: "char \<Rightarrow> int" where
  "signed_char_code c = (if char_code c < 128 then char_code c else char_code c - 256)"

definition hex_digits :: string where
  "hex_digits = ''0123456789ABCDEF''"

definition Hasher_accumulator :: "(char \<Rightarrow> int) \<Rightarrow> string \<Rightarrow> int" where
  "Hasher_accumulator code txt =
     signed_take_bit 31 (\<Sum>i\<leftarrow>[1..<length txt + 1]. code (txt ! (i - 1)) * int i)"

definition Hasher :: "(char \<Rightarrow> int) \<Rightarrow> string \<Rightarrow> string" where
  "Hasher code txt =
     map (\<lambda>i. hex_digits ! nat (drop_bit (i * 4) (Hasher_accumulator code txt) AND 0xF)) [0..<8]"

section \<open>Properties of simpleHash\<close>

subsection \<open>The two loops in closed form\<close>

lemma size_t_of_nat:
  assumes "k < 2 ^ 31"
  shows "int_to_size_t (word_of_nat k) = word_of_nat k"
proof -
  from assms have "signed_take_bit 31 (int k) = int k"
    by (intro signed_take_bit_int_eq_self) simp_all
  then show ?thesis
    by (simp add: int_to_size_t_def signed_of_nat)
qed

lemma guard_below:
  assumes "k < 2 ^ 31" and "length input < 2 ^ 63"
  shows "int_to_size_t (word_of_nat k) < string_length input \<longleftrightarrow> k < length input"
proof -
  from assms have "take_bit 64 k = k" "take_bit 64 (length input) = length input"
    by (simp_all add: take_bit_nat_eq_self)
  with assms(1) show ?thesis
    by (simp add: size_t_of_nat string_length_def word_of_nat_less_iff)
qed

lemma guard_top:
  assumes "length input < 2 ^ 63"
  shows "\<not> int_to_size_t (word_of_nat (2 ^ 31)) < string_length input"
proof -
  have "int_to_size_t (word_of_nat (2 ^ 31)) = 0xFFFFFFFF80000000"
    by (simp add: int_to_size_t_def)
  moreover from assms have "unat (string_length input) = length input"
    by (simp add: string_length_def unat_of_nat)
  ultimately show ?thesis
    using assms by (simp add: word_less_nat_alt)
qed

lemma index_of_nat:
  assumes "k < 2 ^ 31"
  shows "unat (int_to_size_t (word_of_nat k)) = k"
  using assms by (simp add: size_t_of_nat unat_of_nat)

text \<open>
  The loop adds the terms of the first \<open>2 ^ 31\<close> characters: after them the counter is
  negative.
\<close>

lemma sum_loop_eq:
  assumes "length input < 2 ^ 63" and "k \<le> 2 ^ 31"
  shows "sum_loop cs input (word_of_nat k) h =
     h + (\<Sum>j\<leftarrow>[k..<min (length input) (2 ^ 31)].
            char_to_int cs (input ! j) * word_of_nat (j + 1))"
  using assms(2)
proof (induction "min (length input) (2 ^ 31) - k" arbitrary: k h)
  case 0
  then have stop: "\<not> int_to_size_t (word_of_nat k) < string_length input"
    using assms(1) guard_below [of k input] guard_top [of input]
    by (cases "k = 2 ^ 31") auto
  from 0 have "min (length input) (2 ^ 31) \<le> k"
    by simp
  then have e: "[k..<min (length input) (2 ^ 31)] = []"
    by (simp only: upt_conv_Nil)
  show ?case
    unfolding e using stop by (subst sum_loop.simps) simp
next
  case (Suc m)
  then have k: "k < 2 ^ 31" "k < length input"
    by simp_all
  then have go: "int_to_size_t (word_of_nat k) < string_length input"
    using assms(1) by (simp add: guard_below)
  from Suc have "m = min (length input) (2 ^ 31) - (k + 1)" "k + 1 \<le> 2 ^ 31"
    by simp_all
  then have "sum_loop cs input (word_of_nat (k + 1))
        (h + char_to_int cs (input ! k) * word_of_nat (k + 1)) =
      h + char_to_int cs (input ! k) * word_of_nat (k + 1) +
      (\<Sum>j\<leftarrow>[k + 1..<min (length input) (2 ^ 31)].
         char_to_int cs (input ! j) * word_of_nat (j + 1))"
    by (rule Suc.hyps(1))
  moreover from k have "[k..<min (length input) (2 ^ 31)]
      = k # [k + 1..<min (length input) (2 ^ 31)]"
    by (simp add: upt_conv_Cons)
  ultimately show ?case
    using go k by (subst sum_loop.simps) (simp add: index_of_nat ac_simps)
qed

lemma sum_loop_0:
  assumes "length input < 2 ^ 31"
  shows "sum_loop cs input 0 0 =
     (\<Sum>j\<leftarrow>[0..<length input]. char_to_int cs (input ! j) * word_of_nat (j + 1))"
  using assms sum_loop_eq [of input 0 cs 0] by (simp add: min_def)

lemma hex_loop_fills:
  "i \<le> 8 \<Longrightarrow> length a = 9 \<Longrightarrow>
   hex_loop h i a = take i a @ map (hex_char h) [i..<8] @ [a ! 8]"
proof (induction h i a rule: hex_loop.induct)
  case (1 h i a)
  show ?case
  proof (cases "i < 8")
    case True
    let ?a = "a[i := hex_char h i]"
    from True "1.prems" have "hex_loop h (i + 1) ?a
        = take (i + 1) ?a @ map (hex_char h) [i + 1..<8] @ [?a ! 8]"
      by (intro "1.IH") simp_all
    moreover from True "1.prems" have "take (i + 1) ?a = take i a @ [hex_char h i]"
      by (simp add: take_Suc_conv_app_nth)
    moreover from True have "?a ! 8 = a ! 8" by simp
    moreover from True have "[i..<8] = i # [i + 1..<8]"
      by (simp add: upt_conv_Cons)
    ultimately show ?thesis
      using True by (subst hex_loop.simps) simp
  next
    case False
    with "1.prems" have "i = 8" by simp
    with "1.prems" show ?thesis
      by (subst hex_loop.simps) (simp add: take_Suc_conv_app_nth [symmetric])
  qed
qed

subsection \<open>One output character\<close>

lemma nibble_bound: "unat ((w :: 32 word) AND 0xF) < 16"
proof -
  have "w AND 0xF \<le> 0xF"
    by (rule word_and_le1)
  then have "unat (w AND 0xF) \<le> unat (0xF :: 32 word)"
    by (simp only: word_le_nat_alt)
  then show ?thesis by simp
qed

lemma hex_char_nth:
  "hex_char h i = hex_digits ! unat (signed_drop_bit (i * 4) h AND 0xF)"
proof -
  define v where "v = signed_drop_bit (i * 4) h AND 0xF"
  define d where "d = unat v"
  have d: "d < 16" unfolding d_def v_def by (rule nibble_bound)
  have v: "v = word_of_nat d" by (simp add: d_def)
  from d consider "d = 0" | "d = 1" | "d = 2" | "d = 3" | "d = 4" | "d = 5" | "d = 6" | "d = 7"
    | "d = 8" | "d = 9" | "d = 10" | "d = 11" | "d = 12" | "d = 13" | "d = 14" | "d = 15"
    by atomize_elim arith
  then have "(if sint v < 10 then int_to_char (0x30 + v) else int_to_char (0x41 + (v - 10)))
      = hex_digits ! d"
    unfolding v by cases (simp_all add: int_to_char_def hex_digits_def char_of_def)
  then show ?thesis
    by (simp add: hex_char_def Let_def v_def [symmetric] d_def [symmetric])
qed

lemma hex_char_in: "hex_char h i \<in> set hex_digits"
proof -
  have "unat (signed_drop_bit (i * 4) h AND 0xF) < length hex_digits"
    using nibble_bound [of "signed_drop_bit (i * 4) h"] by (simp add: hex_digits_def)
  then show ?thesis
    unfolding hex_char_nth by (rule nth_mem)
qed

lemma hex_char_not_NUL: "hex_char h i \<noteq> CHR 0x00"
  using hex_char_in [of h i] by (auto simp: hex_digits_def)

subsection \<open>The result of simpleHash\<close>

lemma simpleHash_map:
  "simpleHash cs input = map (hex_char (sum_loop cs input 0 0)) [0..<8]"
proof -
  let ?h = "sum_loop cs input 0 0"
  let ?a = "hex_loop ?h 0 (replicate 9 (CHR 0x00))"
  have a: "?a = map (hex_char ?h) [0..<8] @ [CHR 0x00]"
    by (subst hex_loop_fills) simp_all
  have "?a[8 := CHR 0x00] = map (hex_char ?h) [0..<8] @ [CHR 0x00]"
    unfolding a by (simp add: list_update_append)
  moreover have "c_str (map (hex_char ?h) [0..<8] @ [CHR 0x00]) = map (hex_char ?h) [0..<8]"
    unfolding c_str_def by (subst takeWhile_append2) (auto simp: hex_char_not_NUL)
  ultimately show ?thesis
    by (simp add: simpleHash_def Let_def)
qed

text \<open>
  The initial content of \<open>hashArray\<close> does not matter: whatever nine characters it holds,
  the two steps leave the eight digits and the terminator.
\<close>

lemma hashArray_init_irrelevant:
  "length a = 9 \<Longrightarrow> (hex_loop h 0 a)[8 := CHR 0x00] = map (hex_char h) [0..<8] @ [CHR 0x00]"
  by (subst hex_loop_fills) (simp_all add: list_update_append)

lemma sum_loop_Nil: "sum_loop cs [] 0 0 = 0"
  by (simp add: sum_loop_0)

lemma sum_loop_Hello: "sum_loop cs ''Hello'' 0 0 = 1585"
  by (simp add: sum_loop_0 upt_rec char_to_int_def char_value_def split: char_sign.split)

lemma simpleHash_Nil: "simpleHash cs [] = ''00000000''"
  by (simp add: simpleHash_map sum_loop_Nil hex_char_def int_to_char_def char_of_def upt_rec)

lemma simpleHash_Hello: "simpleHash cs ''Hello'' = ''13600000''"
  by (simp add: simpleHash_map sum_loop_Hello hex_char_def int_to_char_def char_of_def upt_rec)

subsection \<open>From the 32-bit words to the integers\<close>

lemma word_of_int_sum_list:
  "(word_of_int (\<Sum>x\<leftarrow>xs. f x) :: 32 word) = (\<Sum>x\<leftarrow>xs. word_of_int (f x))"
  by (induction xs) simp_all

lemma sum_loop_word_of_int:
  assumes "length input < 2 ^ 31"
  shows "sum_loop cs input 0 0 =
     word_of_int (\<Sum>i\<leftarrow>[1..<length input + 1]. char_value cs (input ! (i - 1)) * int i)"
proof -
  have "[1..<length input + 1] = map Suc [0..<length input]"
    by (simp add: map_Suc_upt)
  with assms show ?thesis
    by (simp add: sum_loop_0 char_to_int_def word_of_int_sum_list comp_def)
qed

lemma char_code_range: "0 \<le> char_code c \<and> char_code c < 256"
proof -
  have "char_code c = char_code c mod 256"
    by (simp add: char_code_def)
  moreover have "0 \<le> char_code c mod 256 \<and> char_code c mod 256 < 256"
    by simp
  ultimately show ?thesis
    by simp
qed

lemma char_value_UnsignedChar: "char_value UnsignedChar = char_code"
  by (rule ext) (simp add: char_value_def char_code_def)

lemma char_value_SignedChar: "char_value SignedChar = signed_char_code"
proof
  fix c
  have "signed_take_bit 7 (char_code c) = take_bit 8 (char_code c + 128) - 128"
    by (simp add: signed_take_bit_eq_take_bit_shift)
  also have "\<dots> = (char_code c + 128) mod 256 - 128"
    by (simp add: take_bit_eq_mod)
  also have "\<dots> = signed_char_code c"
    using char_code_range [of c] by (simp add: signed_char_code_def mod_pos_geq)
  finally show "char_value SignedChar c = signed_char_code c"
    by (simp add: char_value_def char_code_def)
qed

lemma low_nibble_int: "uint ((w :: 32 word) AND 0xF) = sint w AND 0xF"
proof -
  have m: "(0xF :: int) = mask 4" by (simp add: mask_eq_exp_minus_1)
  have "uint (w AND 0xF) = uint w AND 0xF"
    by (simp add: uint_and)
  also have "\<dots> = take_bit 4 (uint w)"
    unfolding m by (simp add: take_bit_eq_mask)
  also have "\<dots> = take_bit 4 (sint w)"
    by (rule bit_eqI) (auto simp: bit_simps min_def)
  also have "\<dots> = sint w AND 0xF"
    unfolding m by (simp add: take_bit_eq_mask)
  finally show ?thesis .
qed

lemma nibble_int:
  "unat (signed_drop_bit k (w :: 32 word) AND 0xF) = nat (drop_bit k (sint w) AND 0xF)"
proof -
  have "int (unat (signed_drop_bit k w AND 0xF)) = uint (signed_drop_bit k w AND 0xF)"
    by simp
  also have "\<dots> = sint (signed_drop_bit k w) AND 0xF"
    by (rule low_nibble_int)
  also have "\<dots> = drop_bit k (sint w) AND 0xF"
    by (simp add: sint_signed_drop_bit_eq)
  finally show ?thesis
    by (metis nat_int)
qed

text \<open>The specification's Hasher, computed on a 32-bit word.\<close>

lemma Hasher_word:
  "Hasher code txt =
     map (hex_char (word_of_int (\<Sum>i\<leftarrow>[1..<length txt + 1]. code (txt ! (i - 1)) * int i)))
       [0..<8]"
proof -
  let ?w = "word_of_int (\<Sum>i\<leftarrow>[1..<length txt + 1]. code (txt ! (i - 1)) * int i) :: 32 word"
  have "sint ?w = Hasher_accumulator code txt"
    by (simp add: Hasher_accumulator_def signed_of_int)
  then have "hex_char ?w i
      = hex_digits ! nat (drop_bit (i * 4) (Hasher_accumulator code txt) AND 0xF)" for i
    by (simp only: hex_char_nth nibble_int)
  then have "hex_char ?w
      = (\<lambda>i. hex_digits ! nat (drop_bit (i * 4) (Hasher_accumulator code txt) AND 0xF))"
    by (rule ext)
  then show ?thesis
    by (simp only: Hasher_def)
qed

lemma simpleHash_Hasher:
  assumes "length input < 2 ^ 31"
  shows "sint (sum_loop cs input 0 0) = Hasher_accumulator (char_value cs) input"
    and "simpleHash cs input = Hasher (char_value cs) input"
  using assms
  by (simp_all add: sum_loop_word_of_int Hasher_accumulator_def signed_of_int
        simpleHash_map Hasher_word)

text \<open>On characters below \<open>0x80\<close> the two codes agree.\<close>

lemma Hasher_ascii:
  assumes "\<forall>c\<in>set txt. char_code c < 128"
  shows "Hasher_accumulator signed_char_code txt = Hasher_accumulator char_code txt"
    and "Hasher signed_char_code txt = Hasher char_code txt"
proof -
  have "signed_char_code (txt ! (i - 1)) * int i = char_code (txt ! (i - 1)) * int i"
    if "i \<in> set [1..<length txt + 1]" for i
  proof -
    from that have "txt ! (i - 1) \<in> set txt"
      by (intro nth_mem) auto
    with assms show ?thesis
      by (simp add: signed_char_code_def)
  qed
  then have "map (\<lambda>i. signed_char_code (txt ! (i - 1)) * int i) [1..<length txt + 1]
      = map (\<lambda>i. char_code (txt ! (i - 1)) * int i) [1..<length txt + 1]"
    by (intro map_cong refl)
  then show acc: "Hasher_accumulator signed_char_code txt = Hasher_accumulator char_code txt"
    by (simp only: Hasher_accumulator_def)
  show "Hasher signed_char_code txt = Hasher char_code txt"
    by (simp only: Hasher_def acc)
qed

subsection \<open>Strings of \<open>2 ^ 31\<close> characters and more\<close>

text \<open>
  From \<open>2 ^ 31\<close> characters on the counter \<open>i\<close> itself overflows. With the wrap-around of
  the model the loop then ends after the first \<open>2 ^ 31\<close> characters; a compiler may do
  otherwise, since the overflow is undefined in C++.
\<close>

lemma word_of_nat_sum_list:
  "(word_of_nat (\<Sum>x\<leftarrow>xs. f x) :: 32 word) = (\<Sum>x\<leftarrow>xs. word_of_nat (f x))"
  by (induction xs) simp_all

lemma gauss_nat: "2 * (\<Sum>j\<leftarrow>[0..<n]. j + 1) = n * (n + 1)"
  by (induction n) simp_all

lemma gauss_int: "2 * (\<Sum>i\<leftarrow>[1..<n + 1]. int i) = int n * (int n + 1)"
  by (induction n) (simp_all add: algebra_simps)

lemma sum_loop_replicate:
  assumes "2 ^ 31 \<le> n" and "n < 2 ^ 63"
  shows "sum_loop cs (replicate n c) 0 0 =
     char_to_int cs c * word_of_nat (\<Sum>j\<leftarrow>[0..<2 ^ 31]. j + 1)"
proof -
  have "sum_loop cs (replicate n c) 0 0 =
      (\<Sum>j\<leftarrow>[0..<min n (2 ^ 31)]. char_to_int cs (replicate n c ! j) * word_of_nat (j + 1))"
    using assms(2) sum_loop_eq [of "replicate n c" 0 cs 0] by simp
  also from assms(1) have "min n (2 ^ 31) = (2 ^ 31 :: nat)"
    by simp
  also have "map (\<lambda>j. char_to_int cs (replicate n c ! j) * word_of_nat (j + 1)) [0..<2 ^ 31]
      = map (\<lambda>j. char_to_int cs c * word_of_nat (j + 1)) [0..<2 ^ 31]"
    using assms(1) by (intro map_cong refl) simp
  finally show ?thesis
    by (simp only: sum_list_const_mult word_of_nat_sum_list)
qed

text \<open>
  At \<open>2 ^ 31 + 1\<close> characters the two differ: the loop leaves the last character out,
  the sum of the specification does not.
\<close>

lemma long_input_simpleHash: "simpleHash UnsignedChar (replicate (2 ^ 31 + 1) (CHR ''z'')) = ''00000008''"
proof -
  have "2 * (\<Sum>j\<leftarrow>[0..<2 ^ 31]. j + 1) = (2 ^ 31 * (2 ^ 31 + 1) :: nat)"
    by (rule gauss_nat)
  then have "(\<Sum>j\<leftarrow>[0..<2 ^ 31]. j + 1) = (2305843010287435776 :: nat)"
    by simp
  then have "sum_loop UnsignedChar (replicate (2 ^ 31 + 1) (CHR ''z'')) 0 0 = 0x80000000"
    by (simp add: sum_loop_replicate char_to_int_def char_value_def)
  then show ?thesis
    by (simp add: simpleHash_map hex_char_def int_to_char_def char_of_def upt_rec)
qed

lemma long_input_Hasher: "Hasher char_code (replicate (2 ^ 31 + 1) (CHR ''z'')) = ''A7000008''"
proof -
  let ?n = "2 ^ 31 + 1 :: nat"
  let ?txt = "replicate ?n (CHR ''z'')"
  have m: "map (\<lambda>i. char_code (?txt ! (i - 1)) * int i) [1..<?n + 1]
      = map (\<lambda>i. 122 * int i) [1..<?n + 1]"
    by (intro map_cong refl) (auto simp: char_code_def)
  have "2 * (\<Sum>i\<leftarrow>[1..<?n + 1]. int i) = int ?n * (int ?n + 1)"
    by (rule gauss_int)
  then have s: "(\<Sum>i\<leftarrow>[1..<?n + 1]. int i) = 2305843012434919425"
    by simp
  have "(\<Sum>i\<leftarrow>[1..<length ?txt + 1]. char_code (?txt ! (i - 1)) * int i)
      = 122 * (\<Sum>i\<leftarrow>[1..<?n + 1]. int i)"
    unfolding length_replicate m by (rule sum_list_const_mult)
  also have "\<dots> = 122 * 2305843012434919425"
    by (simp only: s)
  finally have "(word_of_int (\<Sum>i\<leftarrow>[1..<length ?txt + 1].
      char_code (?txt ! (i - 1)) * int i) :: 32 word) = word_of_int (122 * 2305843012434919425)"
    by (simp only:)
  also have "\<dots> = 0x8000007A"
    by simp
  finally have w: "(word_of_int (\<Sum>i\<leftarrow>[1..<length ?txt + 1].
      char_code (?txt ! (i - 1)) * int i) :: 32 word) = 0x8000007A" .
  show ?thesis
    unfolding Hasher_word w
    by (simp add: hex_char_def int_to_char_def char_of_def upt_rec)
qed

subsection \<open>The claims about the Hasher and the Block Factory\<close>

text \<open>
  Claim C2, as amended. For every input string of fewer than \<open>2 ^ 31\<close> characters,
  \<open>simpleHash\<close> returns what the specification's Hasher describes: the accumulator, read
  as a signed 32-bit value, is the sum over the 1-indexed positions \<open>i\<close> of the code of
  the \<open>i\<close>-th character times \<open>i\<close>, wrapped to 32 bits, and the result is the 8-character
  string whose character at position \<open>i\<close> encodes the nibble
  \<open>(accumulator >> (i * 4)) & 0xF\<close>, least-significant nibble first, with 0 to 9 as \<open>'0'\<close>
  to \<open>'9'\<close> and 10 to 15 as \<open>'A'\<close> to \<open>'F'\<close>. The code of a character is the value of the
  C++ \<open>char\<close>: the byte value where plain \<open>char\<close> is unsigned, and where it is signed the
  byte value below \<open>0x80\<close> and the byte value minus 256 from \<open>0x80\<close> on. For a string
  of characters below \<open>0x80\<close> the code is the byte value on both kinds of platform.
\<close>

theorem simpleHash_refines_Hasher:
  assumes "length input < 2 ^ 31"
  shows "sint (sum_loop UnsignedChar input 0 0) = Hasher_accumulator char_code input \<and>
         simpleHash UnsignedChar input = Hasher char_code input \<and>
         sint (sum_loop SignedChar input 0 0) = Hasher_accumulator signed_char_code input \<and>
         simpleHash SignedChar input = Hasher signed_char_code input \<and>
         ((\<forall>c\<in>set input. char_code c < 128) \<longrightarrow>
            sint (sum_loop cs input 0 0) = Hasher_accumulator char_code input \<and>
            simpleHash cs input = Hasher char_code input)"
proof -
  have u: "sint (sum_loop UnsignedChar input 0 0) = Hasher_accumulator char_code input"
    "simpleHash UnsignedChar input = Hasher char_code input"
    using simpleHash_Hasher [OF assms, of UnsignedChar]
    by (simp_all only: char_value_UnsignedChar)
  have s: "sint (sum_loop SignedChar input 0 0) = Hasher_accumulator signed_char_code input"
    "simpleHash SignedChar input = Hasher signed_char_code input"
    using simpleHash_Hasher [OF assms, of SignedChar]
    by (simp_all only: char_value_SignedChar)
  have "sint (sum_loop cs input 0 0) = Hasher_accumulator char_code input \<and>
      simpleHash cs input = Hasher char_code input"
    if "\<forall>c\<in>set input. char_code c < 128"
    using u s Hasher_ascii [OF that] by (cases cs) simp_all
  with u s show ?thesis
    by blast
qed

text \<open>
  The string \<open>"Hello"\<close> on a platform with a signed \<open>char\<close>: five characters below \<open>0x80\<close>.
\<close>

theorem simpleHash_refines_Hasher_witness:
  "length ''Hello'' < 2 ^ 31 \<and>
   char_code CHR ''H'' < 128 \<and> char_code CHR ''e'' < 128 \<and>
   char_code CHR ''l'' < 128 \<and> char_code CHR ''o'' < 128 \<and>
   sint (sum_loop SignedChar ''Hello'' 0 0) = Hasher_accumulator char_code ''Hello'' \<and>
   simpleHash SignedChar ''Hello'' = Hasher char_code ''Hello''"
proof -
  have h1: "length ''Hello'' < 2 ^ 31"
    by simp
  have h2: "\<forall>c\<in>set ''Hello''. char_code c < 128"
    by (simp add: char_code_def)
  from h2 have "char_code CHR ''H'' < 128" "char_code CHR ''e'' < 128"
    "char_code CHR ''l'' < 128" "char_code CHR ''o'' < 128"
    by simp_all
  with h1 h2 simpleHash_refines_Hasher [OF h1, of SignedChar] show ?thesis
    by blast
qed

text \<open>
  The one-character string with the byte \<open>0xFF\<close>, where plain \<open>char\<close> is signed:
  \<open>(int)input[0]\<close> is -1 and \<open>simpleHash\<close> returns \<open>"FFFFFFFF"\<close>, whereas the sum of byte
  values is 255 and the specification's Hasher gives \<open>"FF000000"\<close>.
\<close>

theorem simpleHash_refines_Hasher_counterexample:
  "simpleHash SignedChar [CHR 0xFF] = ''FFFFFFFF'' \<and>
   Hasher char_code [CHR 0xFF] = ''FF000000''"
proof
  have "sum_loop SignedChar [CHR 0xFF] 0 0 = - 1"
    by (simp add: sum_loop_0 char_to_int_def char_value_def)
  then show "simpleHash SignedChar [CHR 0xFF] = ''FFFFFFFF''"
    by (simp add: simpleHash_map hex_char_def int_to_char_def char_of_def upt_rec)
  show "Hasher char_code [CHR 0xFF] = ''FF000000''"
    by (simp add: Hasher_word char_code_def hex_char_def int_to_char_def char_of_def upt_rec)
qed

text \<open>
  Claim C3, as amended. Applied to the string \<open>"Hello"\<close> (the content \<open>"Hello"\<close> followed by
  an empty predecessor digest), the Hasher computes the accumulator 1585 and returns the
  digest \<open>"13600000"\<close>: 1585 is 0x631, so the nibbles from the least significant one are
  1, 3, 6 and five zeros.
\<close>

theorem Hello_digest:
  "sint (sum_loop cs (''Hello'' @ []) 0 0) = 1585 \<and>
   simpleHash cs (''Hello'' @ []) = ''13600000'' \<and>
   hash (createBlock cs ''Hello'' []) = ''13600000''"
  by (simp add: sum_loop_Hello simpleHash_Hello createBlock_def)

text \<open>
  The digest \<open>"12600000"\<close> of the documented worked example is not what the Hasher returns
  for \<open>"Hello"\<close>, on either kind of platform.
\<close>

theorem Hello_digest_counterexample:
  "simpleHash SignedChar ''Hello'' \<noteq> ''12600000'' \<and>
   simpleHash UnsignedChar ''Hello'' \<noteq> ''12600000''"
  by (simp add: simpleHash_Hello)

text \<open>
  Claim C4. For every pair of strings, the empty ones included, \<open>createBlock\<close> returns a
  block whose content is the given content, whose predecessor digest is the given one
  and whose digest is the Hasher applied to the content directly followed by the
  predecessor digest. It is a total function without any check on its arguments: two
  empty strings give the block with the digest of the empty string.
\<close>

theorem createBlock_fields:
  "data (createBlock cs content predecessorDigest) = content \<and>
   prevHash (createBlock cs content predecessorDigest) = predecessorDigest \<and>
   hash (createBlock cs content predecessorDigest) = simpleHash cs (content @ predecessorDigest) \<and>
   createBlock cs [] [] = \<lparr>data = [], prevHash = [], hash = ''00000000''\<rparr>"
  by (simp add: createBlock_def simpleHash_Nil)

text \<open>
  Claim C9. For every input string, the empty one and those whose accumulator is
  negative or has wrapped around included, \<open>simpleHash\<close> returns exactly 8 characters,
  each of them one of \<open>0\<close> to \<open>9\<close> or \<open>A\<close> to \<open>F\<close>.
\<close>

theorem simpleHash_shape:
  "length (simpleHash cs input) = 8 \<and>
   set (simpleHash cs input) \<subseteq> set ''0123456789ABCDEF''"
proof -
  have "set (map (hex_char (sum_loop cs input 0 0)) [0..<8]) \<subseteq> set hex_digits"
    using hex_char_in by auto
  then show ?thesis
    by (simp add: simpleHash_map hex_digits_def)
qed

section \<open>Properties of the interactive loop\<close>

subsection \<open>What one pass through the loop body changes\<close>

lemma main_init_sel:
  "blockCount (main_init cs inp) = 1"
  "choice (main_init cs inp) = CHR ''y''"
  "cout (main_init cs inp) = []"
  "cin (main_init cs inp) = \<lparr>buf = inp, eofbit = False, failbit = False\<rparr>"
  "length (blockchain (main_init cs inp)) = MAX_BLOCKS"
  "blockchain (main_init cs inp) ! 0 = createBlock cs ''Genesis Block'' ''00000000''"
  by (simp_all add: main_init_def MAX_BLOCKS_def)

lemma add_block_sel:
  "blockCount (add_block cs s) = blockCount s + 1"
  "choice (add_block cs s) = choice s"
  "cout (add_block cs s) =
     cout s @ [CHR 0x0A] @ ''Enter data for block '' @ show_int (blockCount s) @ '': ''"
  "cin (add_block cs s) = fst (getline (cin s) [])"
  "blockchain (add_block cs s) =
     (blockchain s)[blockCount s :=
        createBlock cs (snd (getline (cin s) [])) (hash (blockchain s ! (blockCount s - 1)))]"
  by (simp_all add: add_block_def Let_def split: prod.splits)

lemma ask_continue_sel:
  "blockCount (ask_continue s) = blockCount s"
  "blockchain (ask_continue s) = blockchain s"
  "cout (ask_continue s) = cout s @ ''Add another block? (y/n): ''"
  "choice (ask_continue s) = snd (get_char (cin s) (choice s))"
  "cin (ask_continue s) = ignore (fst (get_char (cin s) (choice s)))"
  by (simp_all add: ask_continue_def Let_def split: prod.splits)

subsection \<open>The loop: unfolding, invariants, number of passes\<close>

lemma main_loop_continue:
  "choice s = CHR ''y'' \<Longrightarrow> blockCount s < MAX_BLOCKS \<Longrightarrow>
   main_loop cs s = main_loop cs (ask_continue (add_block cs s))"
  by (subst main_loop.simps) simp

lemma main_loop_exit:
  "\<not> (choice s = CHR ''y'' \<and> blockCount s < MAX_BLOCKS) \<Longrightarrow> main_loop cs s = s"
  by (subst main_loop.simps) auto

lemma main_loop_invariant:
  assumes "P s"
    and "\<And>t. P t \<Longrightarrow> choice t = CHR ''y'' \<Longrightarrow> blockCount t < MAX_BLOCKS \<Longrightarrow>
           P (ask_continue (add_block cs t))"
  shows "P (main_loop cs s)"
  using assms
proof (induction cs s rule: main_loop.induct)
  case (1 cs s)
  show ?case
  proof (cases "choice s = CHR ''y'' \<and> blockCount s < MAX_BLOCKS")
    case True
    then have "P (ask_continue (add_block cs s))"
      using "1.prems" by blast
    then have "P (main_loop cs (ask_continue (add_block cs s)))"
      using True "1.prems"(2) by (intro "1.IH") auto
    with True show ?thesis
      by (simp add: main_loop_continue)
  next
    case False
    with "1.prems"(1) show ?thesis
      by (simp add: main_loop_exit)
  qed
qed

lemma blockCount_mono: "blockCount s \<le> blockCount (main_loop cs s)"
  by (rule main_loop_invariant [where P = "\<lambda>t. blockCount s \<le> blockCount t"])
     (simp_all add: add_block_sel ask_continue_sel)

lemma iterations_0: "iterations cs 0 s = s"
  by (simp add: iterations_def)

lemma iterations_Suc:
  "iterations cs (Suc k) s = iterations cs k (ask_continue (add_block cs s))"
  unfolding iterations_def by (simp only: funpow_Suc_right o_apply)

lemma iterations_Suc_right:
  "iterations cs (Suc k) s = ask_continue (add_block cs (iterations cs k s))"
  by (simp add: iterations_def)

lemma iterations_blockCount: "blockCount (iterations cs k s) = blockCount s + k"
  by (induction k) (simp_all add: iterations_0 iterations_Suc_right add_block_sel ask_continue_sel)

lemma iterations_length: "length (blockchain (iterations cs k s)) = length (blockchain s)"
  by (induction k) (simp_all add: iterations_0 iterations_Suc_right add_block_sel ask_continue_sel)

lemma main_loop_iterations:
  "main_loop cs s = iterations cs (blockCount (main_loop cs s) - blockCount s) s"
proof (induction cs s rule: main_loop.induct)
  case (1 cs s)
  show ?case
  proof (cases "choice s = CHR ''y'' \<and> blockCount s < MAX_BLOCKS")
    case True
    let ?t = "ask_continue (add_block cs s)"
    have eq: "main_loop cs s = main_loop cs ?t"
      using True by (simp add: main_loop_continue)
    have "blockCount ?t \<le> blockCount (main_loop cs ?t)"
      by (rule blockCount_mono)
    then have "blockCount (main_loop cs ?t) - blockCount s
        = Suc (blockCount (main_loop cs ?t) - blockCount ?t)"
      by (simp add: add_block_sel ask_continue_sel)
    moreover have "main_loop cs ?t
        = iterations cs (blockCount (main_loop cs ?t) - blockCount ?t) ?t"
      using True by (intro "1.IH") simp
    ultimately show ?thesis
      unfolding eq by (simp only: iterations_Suc)
  next
    case False
    then show ?thesis
      by (simp add: main_loop_exit iterations_0)
  qed
qed

subsection \<open>The chain invariant\<close>

lemma chain_inv_init: "chain_inv (main_init cs inp)"
  by (simp add: chain_inv_def main_init_sel) (simp add: MAX_BLOCKS_def)

lemma chain_inv_step:
  assumes "chain_inv s" and "blockCount s < MAX_BLOCKS"
  shows "chain_inv (ask_continue (add_block cs s))"
proof -
  let ?n = "blockCount s"
  let ?B = "createBlock cs (snd (getline (cin s) [])) (hash (blockchain s ! (?n - 1)))"
  let ?s' = "ask_continue (add_block cs s)"
  from assms have n: "1 \<le> ?n" "?n < length (blockchain s)"
    by (simp_all add: chain_inv_def)
  have bl: "blockchain ?s' = (blockchain s)[?n := ?B]"
    by (simp add: add_block_sel ask_continue_sel)
  have "prevHash ((blockchain s)[?n := ?B] ! i) = hash ((blockchain s)[?n := ?B] ! (i - 1))"
    if i: "1 \<le> i" "i < ?n + 1" for i
  proof (cases "i = ?n")
    case True
    with n show ?thesis
      by (simp add: createBlock_def)
  next
    case False
    with i have "i < ?n" by simp
    with i assms(1) have "prevHash (blockchain s ! i) = hash (blockchain s ! (i - 1))"
      by (simp add: chain_inv_def)
    with \<open>i < ?n\<close> show ?thesis
      by simp
  qed
  then have "\<forall>i. 1 \<le> i \<and> i < blockCount ?s' \<longrightarrow>
      prevHash (blockchain ?s' ! i) = hash (blockchain ?s' ! (i - 1))"
    unfolding bl by (simp only: add_block_sel ask_continue_sel) blast
  moreover have "1 \<le> blockCount ?s'"
    by (simp add: add_block_sel ask_continue_sel)
  moreover from assms(2) have "blockCount ?s' \<le> MAX_BLOCKS"
    by (simp add: add_block_sel ask_continue_sel)
  moreover from assms(1) have "length (blockchain ?s') = MAX_BLOCKS"
    unfolding bl by (simp add: chain_inv_def)
  ultimately show ?thesis
    unfolding chain_inv_def by blast
qed

lemma chain_inv_loop: "chain_inv (interactive_loop cs inp)"
  unfolding interactive_loop_def
  by (rule main_loop_invariant [where P = chain_inv]) (simp_all add: chain_inv_init chain_inv_step)

lemma chain_length: "chain_inv s \<Longrightarrow> length (chain s) = blockCount s"
  by (simp add: chain_def chain_inv_def)

lemma chain_nth: "i < blockCount s \<Longrightarrow> chain s ! i = blockchain s ! i"
  by (simp add: chain_def)

lemma first_block_kept:
  "1 \<le> blockCount s \<Longrightarrow> blockchain (main_loop cs s) ! 0 = blockchain s ! 0"
  by (rule main_loop_invariant
        [where P = "\<lambda>t. 1 \<le> blockCount t \<and> blockchain t ! 0 = blockchain s ! 0", THEN conjunct2])
     (simp_all add: add_block_sel ask_continue_sel)

lemma genesis_kept:
  "chain (interactive_loop cs inp) ! 0 = createBlock cs ''Genesis Block'' ''00000000''"
proof -
  have "1 \<le> blockCount (interactive_loop cs inp)"
    using chain_inv_loop [of cs inp] by (simp add: chain_inv_def)
  then have "chain (interactive_loop cs inp) ! 0 = blockchain (interactive_loop cs inp) ! 0"
    by (intro chain_nth) simp
  also have "\<dots> = blockchain (main_init cs inp) ! 0"
    unfolding interactive_loop_def by (rule first_block_kept) (simp add: main_init_sel)
  finally show ?thesis
    by (simp add: main_init_sel)
qed

text \<open>
  The loop guard holds in the initial state, so the body runs at least once: a run
  always reads one block from the user.
\<close>

lemma first_pass:
  "interactive_loop cs inp = main_loop cs (ask_continue (add_block cs (main_init cs inp)))"
  unfolding interactive_loop_def
  by (rule main_loop_continue) (simp_all add: main_init_sel MAX_BLOCKS_def)

lemma at_least_two: "2 \<le> blockCount (interactive_loop cs inp)"
proof -
  have "blockCount (ask_continue (add_block cs (main_init cs inp))) = 2"
    by (simp add: add_block_sel ask_continue_sel main_init_sel)
  then show ?thesis
    using blockCount_mono [of "ask_continue (add_block cs (main_init cs inp))" cs]
    by (simp only: first_pass)
qed

subsection \<open>Evaluating a run on a concrete input\<close>

lemma show_int_1: "show_int (Suc 0) = ''1''"
  by (simp add: show_int.simps char_of_def bit_Suc_0_iff)

lemmas run_eval =
  interactive_loop_def main_init_def main_loop_continue main_loop_exit
  iterations_0 iterations_Suc
  add_block_def ask_continue_def Let_def MAX_BLOCKS_def chain_def
  getline_def get_char_def ignore_def good_def isspace_def

subsection \<open>The claims about the chain\<close>

text \<open>
  Claim C1. Chain linkage: in every chain produced by the interactive loop, for every
  index \<open>i \<ge> 1\<close> within the chain's length, the block at position \<open>i\<close> has as its
  predecessor digest the digest of the block at position \<open>i - 1\<close>.
\<close>

theorem chain_linkage:
  assumes "1 \<le> i" and "i < length (chain (interactive_loop cs inp))"
  shows "prevHash (chain (interactive_loop cs inp) ! i)
           = hash (chain (interactive_loop cs inp) ! (i - 1))"
proof -
  let ?s = "interactive_loop cs inp"
  have inv: "chain_inv ?s"
    by (rule chain_inv_loop)
  with assms(2) have i: "i < blockCount ?s"
    by (simp add: chain_length)
  with assms(1) inv have "prevHash (blockchain ?s ! i) = hash (blockchain ?s ! (i - 1))"
    by (simp add: chain_inv_def)
  with i show ?thesis
    by (simp add: chain_nth)
qed

text \<open>
  The user enters the line \<open>x\<close> and answers \<open>n\<close>: the chain has two blocks, and the second
  one is linked to the genesis block.
\<close>

theorem chain_linkage_witness:
  "(1::nat) \<le> 1 \<and>
   1 < length (chain (interactive_loop SignedChar (''x'' @ [CHR 0x0A] @ ''n'' @ [CHR 0x0A]))) \<and>
   prevHash (chain (interactive_loop SignedChar (''x'' @ [CHR 0x0A] @ ''n'' @ [CHR 0x0A])) ! 1)
     = hash (chain (interactive_loop SignedChar (''x'' @ [CHR 0x0A] @ ''n'' @ [CHR 0x0A])) ! (1 - 1))"
proof -
  have h1: "(1::nat) \<le> 1"
    by simp
  have h2: "1 < length (chain (interactive_loop SignedChar (''x'' @ [CHR 0x0A] @ ''n'' @ [CHR 0x0A])))"
    by (simp add: run_eval)
  from h1 h2 chain_linkage [OF h1 h2] show ?thesis
    by (intro conjI)
qed

text \<open>
  Claim C5. Capacity bound: for every standard input, however many affirmative answers
  it holds, the loop ends, after at most 9 passes through its body, and the chain it
  leaves has at most 10 blocks: the genesis block and one block for each pass.
\<close>

theorem capacity_bound:
  "length (chain (interactive_loop cs inp)) \<le> 10 \<and>
   (\<exists>n. n \<le> 9 \<and> interactive_loop cs inp = iterations cs n (main_init cs inp) \<and>
        length (chain (interactive_loop cs inp)) = 1 + n)"
proof -
  let ?s = "interactive_loop cs inp"
  let ?n = "blockCount ?s - 1"
  have inv: "chain_inv ?s"
    by (rule chain_inv_loop)
  then have len: "length (chain ?s) = blockCount ?s"
    by (rule chain_length)
  from inv have bounds: "1 \<le> blockCount ?s" "blockCount ?s \<le> 10"
    by (simp_all add: chain_inv_def MAX_BLOCKS_def)
  have "?s = iterations cs ?n (main_init cs inp)"
    using main_loop_iterations [of cs "main_init cs inp"]
    by (simp add: interactive_loop_def main_init_sel)
  with bounds len have "?n \<le> 9 \<and> ?s = iterations cs ?n (main_init cs inp) \<and>
      length (chain ?s) = 1 + ?n"
    by simp
  then have "\<exists>n. n \<le> 9 \<and> ?s = iterations cs n (main_init cs inp) \<and> length (chain ?s) = 1 + n"
    by (rule exI)
  with bounds len show ?thesis
    by simp
qed

text \<open>
  Claim C6, as amended. Genesis invariant: the genesis block is in the chain before
  anything is written or read; in every chain produced by a run the block at position 0
  has the content \<open>"Genesis Block"\<close> and the predecessor digest \<open>"00000000"\<close>. The loop body
  runs once before the first continuation question, so every chain has at least 2
  blocks, and when the user declines at the first continuation opportunity the final
  chain has exactly 2 blocks: the genesis block and one user block.
\<close>

theorem genesis_invariant:
  "chain (main_init cs inp) = [createBlock cs ''Genesis Block'' ''00000000''] \<and>
   cout (main_init cs inp) = [] \<and>
   buf (cin (main_init cs inp)) = inp \<and>
   data (chain (interactive_loop cs inp) ! 0) = ''Genesis Block'' \<and>
   prevHash (chain (interactive_loop cs inp) ! 0) = ''00000000'' \<and>
   2 \<le> length (chain (interactive_loop cs inp)) \<and>
   (choice (ask_continue (add_block cs (main_init cs inp))) \<noteq> CHR ''y'' \<longrightarrow>
      length (chain (interactive_loop cs inp)) = 2)"
proof -
  let ?t = "ask_continue (add_block cs (main_init cs inp))"
  have len: "length (chain (interactive_loop cs inp)) = blockCount (interactive_loop cs inp)"
    by (rule chain_length) (rule chain_inv_loop)
  have "chain (main_init cs inp) = [createBlock cs ''Genesis Block'' ''00000000'']"
    by (simp add: chain_def main_init_def MAX_BLOCKS_def eval_nat_numeral)
  moreover have "cout (main_init cs inp) = []" "buf (cin (main_init cs inp)) = inp"
    by (simp_all add: main_init_sel)
  moreover have "data (chain (interactive_loop cs inp) ! 0) = ''Genesis Block''"
    "prevHash (chain (interactive_loop cs inp) ! 0) = ''00000000''"
    by (simp_all add: genesis_kept createBlock_def)
  moreover have "2 \<le> length (chain (interactive_loop cs inp))"
    unfolding len by (rule at_least_two)
  moreover have "length (chain (interactive_loop cs inp)) = 2" if "choice ?t \<noteq> CHR ''y''"
  proof -
    from that have "main_loop cs ?t = ?t"
      by (simp add: main_loop_exit)
    then have "interactive_loop cs inp = ?t"
      by (simp only: first_pass)
    then show ?thesis
      unfolding len by (simp add: add_block_sel ask_continue_sel main_init_sel)
  qed
  ultimately show ?thesis
    by blast
qed

text \<open>
  The user enters the line \<open>x\<close> and declines at the first continuation question: the
  chain has two blocks.
\<close>

theorem genesis_invariant_witness:
  "choice (ask_continue (add_block SignedChar
      (main_init SignedChar (''x'' @ [CHR 0x0A] @ ''n'' @ [CHR 0x0A])))) \<noteq> CHR ''y'' \<and>
   length (chain (interactive_loop SignedChar (''x'' @ [CHR 0x0A] @ ''n'' @ [CHR 0x0A]))) = 2"
proof -
  have h: "choice (ask_continue (add_block SignedChar
      (main_init SignedChar (''x'' @ [CHR 0x0A] @ ''n'' @ [CHR 0x0A])))) \<noteq> CHR ''y''"
    by (simp add: run_eval)
  with genesis_invariant [of SignedChar "''x'' @ [CHR 0x0A] @ ''n'' @ [CHR 0x0A]"]
  show ?thesis
    by blast
qed

text \<open>
  No run leaves the genesis block alone. The user who declines at the first
  continuation opportunity, which comes after the first user block, gets a chain that
  does not have length 1.
\<close>

theorem immediate_decline_counterexample:
  "choice (ask_continue (add_block SignedChar
      (main_init SignedChar (''x'' @ [CHR 0x0A] @ ''n'' @ [CHR 0x0A])))) = CHR ''n'' \<and>
   length (chain (interactive_loop SignedChar (''x'' @ [CHR 0x0A] @ ''n'' @ [CHR 0x0A]))) \<noteq> 1"
  by (simp add: run_eval)

text \<open>
  Claim C10. The Hasher applied to the empty string returns \<open>"00000000"\<close>, which is the
  sentinel used as the predecessor digest of the genesis block: in every chain, the
  predecessor digest of the block at position 0 is the digest of the empty string.
\<close>

theorem empty_digest_is_sentinel:
  "simpleHash cs [] = ''00000000'' \<and>
   prevHash (chain (main_init cs inp) ! 0) = simpleHash cs [] \<and>
   prevHash (chain (interactive_loop cs inp) ! 0) = simpleHash cs []"
proof -
  have "chain (main_init cs inp) ! 0 = createBlock cs ''Genesis Block'' ''00000000''"
    by (simp add: chain_nth main_init_sel)
  then show ?thesis
    by (simp add: genesis_kept createBlock_def simpleHash_Nil)
qed

subsection \<open>The claims about the prompts\<close>

text \<open>
  As long as \<open>choice\<close> is \<open>y\<close> before each of the first \<open>n\<close> passes and the array has room
  for \<open>n\<close> more blocks, the loop makes these \<open>n\<close> passes.
\<close>

lemma main_loop_answers:
  assumes "\<forall>j<n. choice (iterations cs j s) = CHR ''y''"
    and "blockCount s + n \<le> MAX_BLOCKS"
  shows "main_loop cs s = main_loop cs (iterations cs n s)"
  using assms
proof (induction n)
  case 0
  show ?case
    by (simp add: iterations_0)
next
  case (Suc n)
  then have "main_loop cs s = main_loop cs (iterations cs n s)"
    by simp
  also from Suc.prems have "\<dots> = main_loop cs (ask_continue (add_block cs (iterations cs n s)))"
    by (intro main_loop_continue) (simp_all add: iterations_blockCount)
  finally show ?case
    by (simp only: iterations_Suc_right)
qed

text \<open>
  Claim C7, as amended. When the maximum block count (10) is reached, the interactive
  loop ends without a further data prompt. If the user answers \<open>y\<close> to each of the first
  eight continuation questions (\<open>choice\<close> is \<open>y\<close> before each of the nine passes), the
  ninth pass through the loop body stores the block that fills the chain; after it is
  stored, that pass still writes its continuation prompt once and reads an answer, which
  has no effect whatever it is: the state after that question is the final state of the
  loop, with exactly 10 blocks in the chain.
\<close>

theorem capacity_exit:
  assumes "\<forall>j<9. choice (iterations cs j (main_init cs inp)) = CHR ''y''"
  shows "blockCount (add_block cs (iterations cs 8 (main_init cs inp))) = MAX_BLOCKS \<and>
         interactive_loop cs inp = ask_continue (add_block cs (iterations cs 8 (main_init cs inp))) \<and>
         cout (interactive_loop cs inp) =
           cout (add_block cs (iterations cs 8 (main_init cs inp))) @ ''Add another block? (y/n): '' \<and>
         blockCount (interactive_loop cs inp) = MAX_BLOCKS \<and>
         length (chain (interactive_loop cs inp)) = 10"
proof -
  let ?s = "add_block cs (iterations cs 8 (main_init cs inp))"
  have full: "blockCount (iterations cs 9 (main_init cs inp)) = MAX_BLOCKS"
    by (simp add: iterations_blockCount main_init_sel MAX_BLOCKS_def)
  have "interactive_loop cs inp = main_loop cs (iterations cs 9 (main_init cs inp))"
    unfolding interactive_loop_def using assms
    by (rule main_loop_answers) (simp add: main_init_sel MAX_BLOCKS_def)
  also have "\<dots> = iterations cs 9 (main_init cs inp)"
    using full by (simp add: main_loop_exit)
  finally have run: "interactive_loop cs inp = iterations cs (Suc 8) (main_init cs inp)"
    by simp
  then have final: "interactive_loop cs inp = ask_continue ?s"
    by (simp only: iterations_Suc_right)
  have "blockCount ?s = MAX_BLOCKS"
    by (simp add: add_block_sel iterations_blockCount main_init_sel MAX_BLOCKS_def)
  moreover have "cout (interactive_loop cs inp) = cout ?s @ ''Add another block? (y/n): ''"
    unfolding final by (simp add: ask_continue_sel)
  moreover have count: "blockCount (interactive_loop cs inp) = MAX_BLOCKS"
    unfolding run using full by simp
  moreover have "length (chain (interactive_loop cs inp)) = 10"
    using chain_length [OF chain_inv_loop, of cs inp] count by (simp add: MAX_BLOCKS_def)
  ultimately show ?thesis
    using final by blast
qed

text \<open>
  The user enters nine lines and answers \<open>y\<close> each time: the chain is full after the ninth
  line, and the ninth question is the last thing the loop writes.
\<close>

theorem capacity_exit_witness:
  "choice (iterations SignedChar 8
      (main_init SignedChar (concat (replicate 9 (''a'' @ [CHR 0x0A] @ ''y'' @ [CHR 0x0A])))))
        = CHR ''y'' \<and>
   interactive_loop SignedChar (concat (replicate 9 (''a'' @ [CHR 0x0A] @ ''y'' @ [CHR 0x0A])))
     = ask_continue (add_block SignedChar (iterations SignedChar 8
         (main_init SignedChar (concat (replicate 9 (''a'' @ [CHR 0x0A] @ ''y'' @ [CHR 0x0A])))))) \<and>
   blockCount (interactive_loop SignedChar
      (concat (replicate 9 (''a'' @ [CHR 0x0A] @ ''y'' @ [CHR 0x0A])))) = MAX_BLOCKS \<and>
   length (chain (interactive_loop SignedChar
      (concat (replicate 9 (''a'' @ [CHR 0x0A] @ ''y'' @ [CHR 0x0A]))))) = 10"
proof -
  have h: "\<forall>j<9. choice (iterations SignedChar j
      (main_init SignedChar (concat (replicate 9 (''a'' @ [CHR 0x0A] @ ''y'' @ [CHR 0x0A])))))
        = CHR ''y''"
    by (simp add: All_less_Suc run_eval eval_nat_numeral)
  from h have "choice (iterations SignedChar 8
      (main_init SignedChar (concat (replicate 9 (''a'' @ [CHR 0x0A] @ ''y'' @ [CHR 0x0A])))))
        = CHR ''y''"
    by simp
  with capacity_exit [OF h] show ?thesis
    by blast
qed

text \<open>
  On the same input: once the tenth block is stored, the loop does write a continuation
  prompt.
\<close>

theorem capacity_prompt_counterexample:
  "blockCount (add_block SignedChar (iterations SignedChar 8
      (main_init SignedChar (concat (replicate 9 (''a'' @ [CHR 0x0A] @ ''y'' @ [CHR 0x0A])))))) = 10 \<and>
   cout (interactive_loop SignedChar (concat (replicate 9 (''a'' @ [CHR 0x0A] @ ''y'' @ [CHR 0x0A]))))
     = cout (add_block SignedChar (iterations SignedChar 8
         (main_init SignedChar (concat (replicate 9 (''a'' @ [CHR 0x0A] @ ''y'' @ [CHR 0x0A]))))))
       @ ''Add another block? (y/n): ''"
  by (simp add: run_eval eval_nat_numeral)

text \<open>
  Claim C8, as amended. In every pass through the loop body the data prompt is a line
  break followed by \<open>"Enter data for block <N>: "\<close>, where \<open>N\<close> is the number of blocks
  already in the chain, that is the 0-based index at which the block about to be created
  is stored (the genesis block is block 0): the first user block is announced with
  \<open>N = 1\<close>, the second with \<open>N = 2\<close>, and so on. Pass \<open>k\<close>, counted from 0, of a run
  starts in the state \<open>iterations cs k (main_init cs inp)\<close>.
\<close>

theorem data_prompt:
  assumes "k < 9"
  shows "blockCount (iterations cs k (main_init cs inp)) = k + 1 \<and>
         cout (add_block cs (iterations cs k (main_init cs inp))) =
           cout (iterations cs k (main_init cs inp)) @
           [CHR 0x0A] @ ''Enter data for block '' @ show_int (k + 1) @ '': '' \<and>
         blockchain (add_block cs (iterations cs k (main_init cs inp))) ! (k + 1) =
           createBlock cs (snd (getline (cin (iterations cs k (main_init cs inp))) []))
             (hash (blockchain (iterations cs k (main_init cs inp)) ! k))"
proof -
  let ?s = "iterations cs k (main_init cs inp)"
  have n: "blockCount ?s = k + 1"
    by (simp add: iterations_blockCount main_init_sel)
  from assms have "k + 1 < length (blockchain ?s)"
    by (simp add: iterations_length main_init_sel MAX_BLOCKS_def)
  with n show ?thesis
    by (simp add: add_block_sel)
qed

text \<open>The first pass of a run: the prompt announces block 1, stored at index 1.\<close>

theorem data_prompt_witness:
  "(0::nat) < 9 \<and>
   cout (add_block SignedChar (iterations SignedChar 0
      (main_init SignedChar (''x'' @ [CHR 0x0A] @ ''n'' @ [CHR 0x0A])))) =
     [CHR 0x0A] @ ''Enter data for block 1: '' \<and>
   blockchain (add_block SignedChar (iterations SignedChar 0
      (main_init SignedChar (''x'' @ [CHR 0x0A] @ ''n'' @ [CHR 0x0A])))) ! 1 =
     createBlock SignedChar ''x'' (hash (createBlock SignedChar ''Genesis Block'' ''00000000''))"
proof -
  have h: "(0::nat) < 9"
    by simp
  from data_prompt [OF h, of SignedChar "''x'' @ [CHR 0x0A] @ ''n'' @ [CHR 0x0A]"]
  show ?thesis
    by (simp add: iterations_0 main_init_sel show_int_1 getline_def good_def)
qed

text \<open>
  The first data prompt of a run announces block 1; it is not the text
  \<open>"Enter data for block 2: "\<close>, with or without the line break before it.
\<close>

theorem data_prompt_counterexample:
  "cout (add_block SignedChar (main_init SignedChar (''x'' @ [CHR 0x0A] @ ''n'' @ [CHR 0x0A]))) =
     [CHR 0x0A] @ ''Enter data for block 1: '' \<and>
   cout (add_block SignedChar (main_init SignedChar (''x'' @ [CHR 0x0A] @ ''n'' @ [CHR 0x0A]))) \<noteq>
     ''Enter data for block 2: '' \<and>
   cout (add_block SignedChar (main_init SignedChar (''x'' @ [CHR 0x0A] @ ''n'' @ [CHR 0x0A]))) \<noteq>
     [CHR 0x0A] @ ''Enter data for block 2: ''"
  by (simp add: add_block_sel main_init_sel show_int_1)

end
